theory Spec2Isabelle
  imports Main
begin

section \<open>Telofinder: the telomere scan of \<open>src/Telofinder.py\<close>\<close>

text \<open>
  The script reads the whole input as one upper-cased string \<open>text\<close> and scans it twice,
  once per strand (lines 78-137 and lines 141-200). The two passes are the same code up to
  the four base characters, so the model has one pass, parameterised by the strand.
  Positions, counters and lengths only count upwards from 0 and are natural numbers;
  \<open>min_length\<close> comes from the command line and is an integer. Python's indexing
  \<open>text[i]\<close> is modelled with its negative indices and its IndexError; inside the
  inner loop, where \<open>pos < len(text)\<close> holds, both \<open>text[pos]\<close> and
  \<open>text[pos - 1]\<close> are in range (lemma \<open>inner_reads_in_range\<close>) and are read
  directly. A character of the text is a \<open>char\<close>; the code only compares characters
  with the four bases, the line separator and the tab. The counter \<open>length\<close> of the
  source is the field \<open>length_run\<close>, and a row \<open>[index, length, position, context]\<close>
  of \<open>results\<close> is a record with the fields \<open>hit_index\<close>, \<open>hit_length\<close>,
  \<open>hit_position\<close> and \<open>hit_context\<close>.
\<close>

subsection \<open>Python strings\<close>

datatype py_error = IndexError

definition newline :: char where
  "newline = CHR 0x0A"

definition tab :: char where
  "tab = CHR 0x09"

definition py_in_range :: "string \<Rightarrow> int \<Rightarrow> bool" where
  "py_in_range text i = (- int (length text) \<le> i \<and> i < int (length text))"

definition py_at :: "string \<Rightarrow> int \<Rightarrow> char" where
  \<comment> \<open>\<open>text[i]\<close> for an index in range: a negative index counts from the end\<close>
  "py_at text i = text ! nat (if i < 0 then i + int (length text) else i)"

definition py_index :: "string \<Rightarrow> int \<Rightarrow> py_error + char" where
  \<comment> \<open>\<open>text[i]\<close>: IndexError when \<open>i\<close> is out of range\<close>
  "py_index text i = (if py_in_range text i then Inr (py_at text i) else Inl IndexError)"

definition py_slice :: "string \<Rightarrow> nat \<Rightarrow> nat \<Rightarrow> string" where
  \<comment> \<open>\<open>text[a:b]\<close> for non-negative bounds: clipped at the end of the text\<close>
  "py_slice text a b = take (b - a) (drop a text)"

definition py_count :: "string \<Rightarrow> char \<Rightarrow> nat \<Rightarrow> nat \<Rightarrow> nat" where
  \<comment> \<open>\<open>text.count(c, a, b)\<close>: occurrences of the character in \<open>text[a:b]\<close>\<close>
  "py_count text c a b = length (filter (\<lambda>x. x = c) (py_slice text a b))"

fun py_replace :: "string \<Rightarrow> char \<Rightarrow> string \<Rightarrow> string" where
  \<comment> \<open>\<open>s.replace(old, new)\<close> for a one-character \<open>old\<close>\<close>
  "py_replace [] old new = []"
| "py_replace (c # cs) old new = (if c = old then new else [c]) @ py_replace cs old new"

subsection \<open>The two strands\<close>

datatype strand = StrandA | StrandB

fun primary :: "strand \<Rightarrow> char" where
  "primary StrandA = CHR ''G''"
| "primary StrandB = CHR ''C''"

fun secondary :: "strand \<Rightarrow> char" where
  "secondary StrandA = CHR ''T''"
| "secondary StrandB = CHR ''A''"

fun noise1 :: "strand \<Rightarrow> char" where
  "noise1 StrandA = CHR ''A''"
| "noise1 StrandB = CHR ''T''"

fun noise2 :: "strand \<Rightarrow> char" where
  "noise2 StrandA = CHR ''C''"
| "noise2 StrandB = CHR ''G''"

subsection \<open>The inner loop: one attempt\<close>

text \<open>
  The counters of lines 80-85 and the cursor \<open>pos\<close>, which the inner loop shares with the
  outer one. \<open>trash\<close> is the 0/1 flag of the source. In strand B the variables \<open>gt\<close>,
  \<open>tt\<close>, \<open>gg\<close> and \<open>ac\<close> keep their names and count the swapped bases.
\<close>

record scan_state =
  length_run :: nat
  trash :: bool
  ac :: nat
  gt :: nat
  tt :: nat
  gg :: nat
  pos :: nat

definition init_state :: "nat \<Rightarrow> scan_state" where
  "init_state p = \<lparr>length_run = 0, trash = False, ac = 0, gt = 0, tt = 0, gg = 0, pos = p\<rparr>"

datatype outcome = Break scan_state | Next scan_state

definition classify :: "strand \<Rightarrow> string \<Rightarrow> scan_state \<Rightarrow> outcome" where
  \<comment> \<open>lines 88-111: the \<open>if/elif\<close> chain on \<open>text[pos]\<close>, for \<open>pos < len(text)\<close>\<close>
  "classify sd text s =
     (let ch = text ! pos s in
      if ch = primary sd then
        Next (s\<lparr>length_run := length_run s + 1,
                gt := (if py_at text (int (pos s) - 1) = secondary sd then gt s + 1 else 0),
                tt := 0,
                gg := gg s + 1\<rparr>)
      else if ch = secondary sd then
        Next (s\<lparr>length_run := length_run s + 1, tt := tt s + 1, gg := 0\<rparr>)
      else if ch = noise1 sd \<or> ch = noise2 sd then
        (let n = py_count text (noise1 sd) (pos s) (pos s + 15)
               + py_count text (noise2 sd) (pos s) (pos s + 15) in
         if n > 2 then Break (s\<lparr>ac := n\<rparr>)
         else Next (s\<lparr>ac := 0, length_run := length_run s + 1\<rparr>))
      else Break (s\<lparr>trash := True\<rparr>))"

definition stop_checks :: "scan_state \<Rightarrow> outcome" where
  \<comment> \<open>lines 113-121\<close>
  "stop_checks s =
     (if tt s > 3 then Break s
      else if gg s > 5 then Break s
      else if gt s > 10 then Break (s\<lparr>trash := True\<rparr>)
      else Next (s\<lparr>pos := pos s + 1\<rparr>))"

definition body :: "strand \<Rightarrow> string \<Rightarrow> scan_state \<Rightarrow> outcome" where
  "body sd text s =
     (case classify sd text s of
        Break s' \<Rightarrow> Break s'
      | Next s' \<Rightarrow> stop_checks s')"

lemma body_Next_pos: "body sd text s = Next s' \<Longrightarrow> pos s' = Suc (pos s)"
  by (auto simp: body_def classify_def stop_checks_def Let_def
           split: outcome.splits if_splits)

function inner_loop :: "strand \<Rightarrow> string \<Rightarrow> scan_state \<Rightarrow> scan_state" where
  "inner_loop sd text s =
     (if pos s < length text then
        (case body sd text s of
           Break s' \<Rightarrow> s'
         | Next s' \<Rightarrow> inner_loop sd text s')
      else s)"
  by pat_completeness auto
termination
  by (relation "measure (\<lambda>(sd, text, s). length text - pos s)")
     (auto dest: body_Next_pos)

declare inner_loop.simps [simp del]

definition attempt :: "strand \<Rightarrow> string \<Rightarrow> nat \<Rightarrow> scan_state" where
  \<comment> \<open>lines 80-121: reset the counters, run the inner loop from \<open>position = pos\<close>\<close>
  "attempt sd text p = inner_loop sd text (init_state p)"

fun head_state :: "strand \<Rightarrow> string \<Rightarrow> nat \<Rightarrow> nat \<Rightarrow> scan_state option" where
  \<comment> \<open>the state at the head of the inner loop (line 87) after \<open>n\<close> full iterations of the
      attempt started at \<open>p\<close>; None when the loop has ended before\<close>
  "head_state sd text p 0 = Some (init_state p)"
| "head_state sd text p (Suc n) =
     (case head_state sd text p n of
        None \<Rightarrow> None
      | Some s \<Rightarrow>
          if pos s < length text then
            (case body sd text s of Break s' \<Rightarrow> None | Next s' \<Rightarrow> Some s')
          else None)"

subsection \<open>The acceptance check and the context\<close>

definition valid_telomere :: "string \<Rightarrow> int \<Rightarrow> scan_state \<Rightarrow> nat \<Rightarrow> py_error + bool" where
  \<comment> \<open>line 124; \<open>and\<close> evaluates left to right and stops at the first false operand\<close>
  "valid_telomere text min_length s position =
     (if int (length_run s) > min_length \<and> length_run s < 1000 \<and> \<not> trash s then
        (case py_index text (int position - 1) of
           Inl e \<Rightarrow> Inl e
         | Inr prev_ch \<Rightarrow>
             if prev_ch \<noteq> newline then
               (case py_index text (int position + int (length_run s) + 1) of
                  Inl e \<Rightarrow> Inl e
                | Inr next_ch \<Rightarrow> Inr (next_ch \<noteq> newline))
             else Inr False)
      else Inr False)"

definition build_context :: "string \<Rightarrow> nat \<Rightarrow> nat \<Rightarrow> string" where
  \<comment> \<open>lines 128-134\<close>
  "build_context text position len =
     (let start_context = nat (max 0 (int position - 50));
          end_context = min (length text) (position + (len + 50));
          raw_context = py_slice text start_context end_context;
          clean_context = py_replace raw_context newline ''END OF READ''
      in py_replace clean_context tab '' '')"

subsection \<open>The outer loop: one pass, and the two passes\<close>

record hit =
  hit_index :: nat
  hit_length :: nat
  hit_position :: nat
  hit_context :: string

definition new_hit :: "string \<Rightarrow> nat \<Rightarrow> scan_state \<Rightarrow> nat \<Rightarrow> hit" where
  \<comment> \<open>the row appended at line 136, \<open>index\<close> already incremented\<close>
  "new_hit text idx s position =
     \<lparr>hit_index = idx, hit_length = length_run s, hit_position = position,
      hit_context = build_context text position (length_run s)\<rparr>"

lemma attempt_pos_ge_aux: "pos s \<le> pos (inner_loop sd text s)"
proof (induction sd "text" s rule: inner_loop.induct)
  case (1 sd tx s)
  show ?case
  proof (cases "pos s < length tx")
    case False
    then show ?thesis by (simp add: inner_loop.simps)
  next
    case True
    show ?thesis
    proof (cases "body sd tx s")
      case (Break s')
      then have "pos s' = pos s"
        by (auto simp: body_def classify_def stop_checks_def Let_def
                 split: outcome.splits if_splits)
      with True Break show ?thesis by (simp add: inner_loop.simps)
    next
      case (Next s')
      with True "1.IH" have "pos s' \<le> pos (inner_loop sd tx s')" by simp
      moreover from Next have "pos s' = Suc (pos s)" by (rule body_Next_pos)
      ultimately show ?thesis using True Next by (simp add: inner_loop.simps)
    qed
  qed
qed

lemma attempt_pos_ge: "p \<le> pos (attempt sd text p)"
  using attempt_pos_ge_aux [of "init_state p" sd "text"]
  by (simp add: attempt_def init_state_def)

function scan_pass ::
  "strand \<Rightarrow> string \<Rightarrow> int \<Rightarrow> nat \<Rightarrow> nat \<Rightarrow> hit list \<Rightarrow> py_error + (nat \<times> hit list)" where
  \<comment> \<open>lines 78-137 (strand A) and 141-200 (strand B): \<open>p\<close> is the shared cursor \<open>pos\<close> at
      the head of the outer loop, \<open>idx\<close> and \<open>results\<close> the globals \<open>index\<close> and
      \<open>results\<close>. An IndexError of line 124 ends the program.\<close>
  "scan_pass sd text min_length p idx results =
     (if p < length text then
        (case valid_telomere text min_length (attempt sd text p) p of
           Inl e \<Rightarrow> Inl e
         | Inr ok \<Rightarrow>
             scan_pass sd text min_length (pos (attempt sd text p) + 1)
               (if ok then idx + 1 else idx)
               (if ok then results @ [new_hit text (idx + 1) (attempt sd text p) p]
                else results))
      else Inr (idx, results))"
  by pat_completeness auto
termination
  by (relation "measure (\<lambda>(sd, text, min_length, p, idx, results). length text - p)")
     (auto intro: diff_less_mono2 le_imp_less_Suc attempt_pos_ge)

declare scan_pass.simps [simp del]

definition telofinder :: "string \<Rightarrow> int \<Rightarrow> py_error + (nat \<times> hit list)" where
  \<comment> \<open>lines 70-200: both passes over the same text; the result is the final \<open>index\<close> and
      the rows of \<open>results\<close>\<close>
  "telofinder text min_length =
     (case scan_pass StrandA text min_length 0 0 [] of
        Inl e \<Rightarrow> Inl e
      | Inr (idx, results) \<Rightarrow> scan_pass StrandB text min_length 0 idx results)"







definition window_noise :: "strand \<Rightarrow> string \<Rightarrow> nat \<Rightarrow> nat" where
  \<comment> \<open>the specification's local noise: how many characters of the noise set stand at the
      offsets of the window \<open>[q, q + 15)\<close>, clipped at the end of the text\<close>
  "window_noise sd text q =
     length (filter (\<lambda>i. text ! i = noise1 sd \<or> text ! i = noise2 sd)
               [q ..< min (q + 15) (length text)])"

definition recognised :: "strand \<Rightarrow> char \<Rightarrow> bool" where
  \<comment> \<open>the characters the \<open>if/elif\<close> chain of lines 90-108 has a branch for\<close>
  "recognised sd c = (c = primary sd \<or> c = secondary sd \<or> c = noise1 sd \<or> c = noise2 sd)"

definition context_spec :: "string \<Rightarrow> nat \<Rightarrow> nat \<Rightarrow> string" where
  \<comment> \<open>the specification's context: the characters at the offsets from
      \<open>max(0, position - 50)\<close> up to \<open>min(text_length, position + length + 50)\<close>, each
      line separator replaced by the marker, then each tab by a space\<close>
  "context_spec text position len =
     map (\<lambda>c. if c = tab then CHR '' '' else c)
       (concat (map (\<lambda>c. if c = newline then ''END OF READ'' else [c])
          (map (\<lambda>i. text ! i)
             [(if position < 50 then 0 else position - 50)
                ..< min (length text) (position + len + 50)])))"

definition loop_inv :: "strand \<Rightarrow> string \<Rightarrow> nat \<Rightarrow> scan_state \<Rightarrow> bool" where
  \<comment> \<open>what holds at the head of the inner loop (line 87) of the attempt started at \<open>p\<close>\<close>
  "loop_inv sd text p s =
     (p \<le> pos s \<and> \<not> trash s \<and> ac s = 0 \<and>
      tt s \<le> 3 \<and> gg s \<le> 5 \<and> gt s \<le> 10 \<and>
      p + length_run s = pos s \<and>
      (0 < gt s \<longrightarrow> p < pos s) \<and>
      (p < pos s \<and> text ! (pos s - 1) = secondary sd \<longrightarrow> gg s = 0))"

subsection \<open>Sample inputs\<close>

definition sample_read :: string where
  \<comment> \<open>a tab, four T, six G, three T and a line separator\<close>
  "sample_read = tab # ''TTTTGGGGGGTTT'' @ [newline]"

definition sample_hits :: "hit list" where
  "sample_hits =
     [\<lparr>hit_index = 1, hit_length = 4, hit_position = 1,
       hit_context = '' TTTTGGGGGGTTTEND OF READ''\<rparr>,
      \<lparr>hit_index = 2, hit_length = 6, hit_position = 5,
       hit_context = '' TTTTGGGGGGTTTEND OF READ''\<rparr>]"

definition two_strand_read :: string where
  "two_strand_read = ''GGGGGGTTNCCCCCCAAN''"

definition two_strand_hits :: "hit list" where
  "two_strand_hits =
     [\<lparr>hit_index = 1, hit_length = 6, hit_position = 0, hit_context = ''GGGGGGTTNCCCCCCAAN''\<rparr>,
      \<lparr>hit_index = 2, hit_length = 6, hit_position = 9, hit_context = ''GGGGGGTTNCCCCCCAAN''\<rparr>]"

definition abutting_read :: string where
  "abutting_read = ''GGGGGGGGGGGGTTN''"

definition abutting_hits :: "hit list" where
  "abutting_hits =
     [\<lparr>hit_index = 1, hit_length = 6, hit_position = 0, hit_context = ''GGGGGGGGGGGGTTN''\<rparr>,
      \<lparr>hit_index = 2, hit_length = 6, hit_position = 6, hit_context = ''GGGGGGGGGGGGTTN''\<rparr>]"

subsection \<open>Facts about one attempt\<close>

lemma strand_distinct:
  "primary sd \<noteq> secondary sd" "primary sd \<noteq> noise1 sd" "primary sd \<noteq> noise2 sd"
  "secondary sd \<noteq> noise1 sd" "secondary sd \<noteq> noise2 sd" "noise1 sd \<noteq> noise2 sd"
  by (cases sd; simp)+

lemma inner_reads_in_range:
  assumes "pos s < length text"
  shows "py_index text (int (pos s)) = Inr (text ! pos s) \<and>
         py_index text (int (pos s) - 1) = Inr (py_at text (int (pos s) - 1))"
  using assms by (simp add: py_index_def py_in_range_def py_at_def)

lemma inner_loop_rule:
  assumes init: "I s"
    and step: "\<And>s s'. I s \<Longrightarrow> pos s < length text \<Longrightarrow> body sd text s = Next s' \<Longrightarrow> I s'"
    and exit: "\<And>s. I s \<Longrightarrow> \<not> pos s < length text \<Longrightarrow> Q s"
    and brk: "\<And>s s'. I s \<Longrightarrow> pos s < length text \<Longrightarrow> body sd text s = Break s' \<Longrightarrow> Q s'"
  shows "Q (inner_loop sd text s)"
  using init
proof (induction "length text - pos s" arbitrary: s rule: less_induct)
  case less
  show ?case
  proof (cases "pos s < length text")
    case False
    with less.prems exit show ?thesis by (simp add: inner_loop.simps)
  next
    case True
    show ?thesis
    proof (cases "body sd text s")
      case (Break s')
      with True less.prems brk show ?thesis by (simp add: inner_loop.simps)
    next
      case (Next s')
      then have p: "pos s' = Suc (pos s)" by (rule body_Next_pos)
      from less.prems True Next have "I s'" by (rule step)
      moreover from p True have "length text - pos s' < length text - pos s" by simp
      ultimately have "Q (inner_loop sd text s')" by (rule less.hyps [rotated])
      with True Next show ?thesis by (simp add: inner_loop.simps)
    qed
  qed
qed

lemma loop_inv_init: "loop_inv sd text p (init_state p)"
  by (simp add: loop_inv_def init_state_def)

lemma loop_inv_step:
  assumes "loop_inv sd text p s" "pos s < length text" "body sd text s = Next s'"
  shows "loop_inv sd text p s'"
  using assms strand_distinct [of sd]
  by (auto simp: loop_inv_def body_def classify_def stop_checks_def Let_def
           split: outcome.splits if_splits)


lemma attempt_final:
  "\<exists>s. loop_inv sd text p s \<and>
       (\<not> pos s < length text \<and> attempt sd text p = s \<or>
        pos s < length text \<and> body sd text s = Break (attempt sd text p))"
  unfolding attempt_def
  by (rule inner_loop_rule [where I = "loop_inv sd text p"])
     (auto intro: loop_inv_init loop_inv_step)

lemma body_Break_cases:
  assumes "loop_inv sd text p s" "body sd text s = Break f"
  shows "pos f = pos s \<and>
         (length_run f = length_run s \<or> length_run f = length_run s + 1) \<and>
         ((text ! pos s \<noteq> primary sd \<and> text ! pos s \<noteq> secondary sd \<and>
           text ! pos s \<noteq> noise1 sd \<and> text ! pos s \<noteq> noise2 sd) \<longrightarrow> trash f)"
  using assms
  by (auto simp: loop_inv_def body_def classify_def stop_checks_def Let_def
           split: outcome.splits if_splits)

lemma attempt_span:
  "pos (attempt sd text p) \<le> p + length_run (attempt sd text p) \<and>
   p + length_run (attempt sd text p) \<le> pos (attempt sd text p) + 1"
proof -
  obtain s where inv: "loop_inv sd text p s"
    and fin: "\<not> pos s < length text \<and> attempt sd text p = s \<or>
              pos s < length text \<and> body sd text s = Break (attempt sd text p)"
    using attempt_final by blast
  from inv have eq: "p + length_run s = pos s" by (simp add: loop_inv_def)
  from fin show ?thesis
  proof
    assume "\<not> pos s < length text \<and> attempt sd text p = s"
    with eq show ?thesis by simp
  next
    assume "pos s < length text \<and> body sd text s = Break (attempt sd text p)"
    with inv body_Break_cases [of sd "text" p s "attempt sd text p"] eq
    show ?thesis by auto
  qed
qed

lemma attempt_unrecognized:
  assumes "pos (attempt sd text p) < length text"
    and "text ! pos (attempt sd text p) \<noteq> primary sd"
    and "text ! pos (attempt sd text p) \<noteq> secondary sd"
    and "text ! pos (attempt sd text p) \<noteq> noise1 sd"
    and "text ! pos (attempt sd text p) \<noteq> noise2 sd"
  shows "trash (attempt sd text p)"
proof -
  obtain s where inv: "loop_inv sd text p s"
    and fin: "\<not> pos s < length text \<and> attempt sd text p = s \<or>
              pos s < length text \<and> body sd text s = Break (attempt sd text p)"
    using attempt_final by blast
  from fin show ?thesis
  proof
    assume "\<not> pos s < length text \<and> attempt sd text p = s"
    with assms(1) show ?thesis by simp
  next
    assume b: "pos s < length text \<and> body sd text s = Break (attempt sd text p)"
    with inv body_Break_cases [of sd "text" p s "attempt sd text p"] assms
    show ?thesis by auto
  qed
qed

lemma head_state_inv: "head_state sd text p n = Some s \<Longrightarrow> loop_inv sd text p s"
proof (induction n arbitrary: s)
  case 0
  then show ?case by (auto intro: loop_inv_init)
next
  case (Suc n)
  then show ?case
    by (auto split: option.splits if_splits outcome.splits intro: loop_inv_step)
qed

lemma head_state_attempt:
  "head_state sd text p n = Some s \<Longrightarrow> attempt sd text p = inner_loop sd text s"
proof (induction n arbitrary: s)
  case 0
  then show ?case by (simp add: attempt_def)
next
  case (Suc n)
  then obtain s0 where h: "head_state sd text p n = Some s0"
    and l: "pos s0 < length text" and b: "body sd text s0 = Next s"
    by (auto split: option.splits if_splits outcome.splits)
  from Suc.IH [OF h] have "attempt sd text p = inner_loop sd text s0" .
  also from l b have "\<dots> = inner_loop sd text s"
    by (subst inner_loop.simps) simp
  finally show ?case .
qed

lemma head_state_stop:
  assumes "head_state sd text p n = Some s" "pos s < length text" "body sd text s = Break f"
  shows "attempt sd text p = f"
  using head_state_attempt [OF assms(1)] assms(2,3)
  by (simp add: inner_loop.simps)

lemma py_slice_nth: "py_slice text a b = map (\<lambda>i. text ! i) [a ..< min b (length text)]"
  by (auto simp: py_slice_def list_eq_iff_nth_eq min_def)

lemma py_count_window:
  "py_count text (noise1 sd) q (q + 15) + py_count text (noise2 sd) q (q + 15)
   = window_noise sd text q"
proof -
  have ne: "noise1 sd \<noteq> noise2 sd" by (rule strand_distinct)
  have "\<And>xs. length (filter (\<lambda>i. text ! i = noise1 sd) xs)
            + length (filter (\<lambda>i. text ! i = noise2 sd) xs)
            = length (filter (\<lambda>i. text ! i = noise1 sd \<or> text ! i = noise2 sd) xs)"
  proof -
    fix xs :: "nat list"
    show "length (filter (\<lambda>i. text ! i = noise1 sd) xs)
            + length (filter (\<lambda>i. text ! i = noise2 sd) xs)
            = length (filter (\<lambda>i. text ! i = noise1 sd \<or> text ! i = noise2 sd) xs)"
      using ne by (induction xs) auto
  qed
  then show ?thesis
    by (simp add: py_count_def py_slice_nth window_noise_def filter_map o_def)
qed

subsection \<open>Facts about one pass\<close>

lemma scan_pass_acc:
  "scan_pass sd text m p idx rs =
     (case scan_pass sd text m p idx [] of
        Inl e \<Rightarrow> Inl e
      | Inr (n, new) \<Rightarrow> Inr (n, rs @ new))"
proof (induction "length text - p" arbitrary: p idx rs rule: less_induct)
  case less
  show ?case
  proof (cases "p < length text")
    case False
    then show ?thesis by (simp add: scan_pass.simps)
  next
    case True
    let ?a = "attempt sd text p"
    let ?q = "pos ?a + 1"
    from True attempt_pos_ge [of p sd "text"]
    have dec: "length text - ?q < length text - p" by simp
    show ?thesis
    proof (cases "valid_telomere text m ?a p")
      case (Inl e)
      with True show ?thesis by (simp add: scan_pass.simps)
    next
      case (Inr ok)
      let ?i = "if ok then idx + 1 else idx"
      let ?h = "if ok then [new_hit text (idx + 1) ?a p] else []"
      have l: "scan_pass sd text m p idx rs = scan_pass sd text m ?q ?i (rs @ ?h)"
        using True Inr by (subst scan_pass.simps) simp
      have r: "scan_pass sd text m p idx [] = scan_pass sd text m ?q ?i ?h"
        using True Inr by (subst scan_pass.simps) simp
      have "scan_pass sd text m ?q ?i (rs @ ?h) =
              (case scan_pass sd text m ?q ?i [] of
                 Inl e \<Rightarrow> Inl e | Inr (n, new) \<Rightarrow> Inr (n, (rs @ ?h) @ new))"
        by (rule less.hyps [OF dec])
      moreover have "scan_pass sd text m ?q ?i ?h =
              (case scan_pass sd text m ?q ?i [] of
                 Inl e \<Rightarrow> Inl e | Inr (n, new) \<Rightarrow> Inr (n, ?h @ new))"
        by (rule less.hyps [OF dec])
      ultimately show ?thesis
        unfolding l r by (simp split: sum.splits prod.splits)
    qed
  qed
qed

lemma scan_pass_end: "\<not> p < length text \<Longrightarrow> scan_pass sd text m p idx rs = Inr (idx, rs)"
  by (simp add: scan_pass.simps)

lemma scan_pass_unfold:
  assumes "p < length text"
  shows "scan_pass sd text m p idx [] =
     (case valid_telomere text m (attempt sd text p) p of
        Inl e \<Rightarrow> Inl e
      | Inr ok \<Rightarrow>
          (case scan_pass sd text m (pos (attempt sd text p) + 1)
                  (if ok then idx + 1 else idx) [] of
             Inl e \<Rightarrow> Inl e
           | Inr (n, new) \<Rightarrow>
               Inr (n, (if ok then [new_hit text (idx + 1) (attempt sd text p) p] else [])
                        @ new)))"
proof (cases "valid_telomere text m (attempt sd text p) p")
  case (Inl e)
  with assms show ?thesis by (simp add: scan_pass.simps)
next
  case (Inr ok)
  have "scan_pass sd text m p idx [] =
        scan_pass sd text m (pos (attempt sd text p) + 1) (if ok then idx + 1 else idx)
          (if ok then [new_hit text (idx + 1) (attempt sd text p) p] else [])"
    using assms Inr by (subst scan_pass.simps) simp
  also have "\<dots> = (case scan_pass sd text m (pos (attempt sd text p) + 1)
                  (if ok then idx + 1 else idx) [] of
             Inl e \<Rightarrow> Inl e
           | Inr (n, new) \<Rightarrow>
               Inr (n, (if ok then [new_hit text (idx + 1) (attempt sd text p) p] else [])
                        @ new))"
    by (rule scan_pass_acc)
  finally show ?thesis using Inr by simp
qed

lemma scan_pass_hits_induct [consumes 1, case_names finished step]:
  assumes run: "scan_pass sd text m p idx [] = Inr (n, new)"
    and fin: "\<And>p idx. \<not> p < length text \<Longrightarrow> P p idx idx []"
    and step: "\<And>p idx ok n new.
        p < length text \<Longrightarrow>
        valid_telomere text m (attempt sd text p) p = Inr ok \<Longrightarrow>
        scan_pass sd text m (pos (attempt sd text p) + 1) (if ok then idx + 1 else idx) []
          = Inr (n, new) \<Longrightarrow>
        P (pos (attempt sd text p) + 1) (if ok then idx + 1 else idx) n new \<Longrightarrow>
        P p idx n ((if ok then [new_hit text (idx + 1) (attempt sd text p) p] else []) @ new)"
  shows "P p idx n new"
  using run
proof (induction "length text - p" arbitrary: p idx n new rule: less_induct)
  case less
  show ?case
  proof (cases "p < length text")
    case False
    with less.prems have "n = idx" "new = []" by (simp_all add: scan_pass_end)
    with False fin show ?thesis by simp
  next
    case True
    let ?a = "attempt sd text p"
    let ?q = "pos ?a + 1"
    from True attempt_pos_ge [of p sd "text"]
    have dec: "length text - ?q < length text - p" by simp
    from less.prems scan_pass_unfold [OF True, of sd m idx]
    obtain ok new' where v: "valid_telomere text m ?a p = Inr ok"
      and r: "scan_pass sd text m ?q (if ok then idx + 1 else idx) [] = Inr (n, new')"
      and e: "new = (if ok then [new_hit text (idx + 1) ?a p] else []) @ new'"
      by (auto split: sum.splits prod.splits)
    from less.hyps [OF dec r] have "P ?q (if ok then idx + 1 else idx) n new'" .
    from step [OF True v r this] e show ?thesis by simp
  qed
qed

lemma telofinder_split:
  assumes "telofinder text m = Inr (n, hits)"
  shows "\<exists>k hitsA hitsB.
           scan_pass StrandA text m 0 0 [] = Inr (k, hitsA) \<and>
           scan_pass StrandB text m 0 k [] = Inr (n, hitsB) \<and>
           hits = hitsA @ hitsB"
proof -
  from assms obtain k hitsA where a: "scan_pass StrandA text m 0 0 [] = Inr (k, hitsA)"
    and b: "scan_pass StrandB text m 0 k hitsA = Inr (n, hits)"
    by (auto simp: telofinder_def split: sum.splits prod.splits)
  from b scan_pass_acc [of StrandB "text" m 0 k hitsA]
  obtain hitsB where "scan_pass StrandB text m 0 k [] = Inr (n, hitsB)" "hits = hitsA @ hitsB"
    by (auto split: sum.splits prod.splits)
  with a show ?thesis by blast
qed

lemma pass_hits_facts:
  assumes "scan_pass sd text m p idx [] = Inr (n, new)"
  shows "\<forall>h \<in> set new.
           p \<le> hit_position h \<and> hit_position h < length text \<and>
           valid_telomere text m (attempt sd text (hit_position h)) (hit_position h) = Inr True \<and>
           hit_length h = length_run (attempt sd text (hit_position h)) \<and>
           hit_context h = build_context text (hit_position h) (hit_length h)"
  using assms
proof (induction rule: scan_pass_hits_induct)
  case (finished p idx)
  show ?case by simp
next
  case (step p idx ok n new)
  from attempt_pos_ge [of p sd "text"] step.IH
  have "\<forall>h \<in> set new.
           p \<le> hit_position h \<and> hit_position h < length text \<and>
           valid_telomere text m (attempt sd text (hit_position h)) (hit_position h) = Inr True \<and>
           hit_length h = length_run (attempt sd text (hit_position h)) \<and>
           hit_context h = build_context text (hit_position h) (hit_length h)"
    by auto
  moreover have "ok \<Longrightarrow> valid_telomere text m (attempt sd text p) p = Inr True"
    using step.hyps(2) by simp
  ultimately show ?case using step.hyps(1) by (auto simp: new_hit_def)
qed

lemma pass_hits_index:
  assumes "scan_pass sd text m p idx [] = Inr (n, new)"
  shows "n = idx + length new \<and> map hit_index new = [Suc idx ..< Suc n]"
  using assms
proof (induction rule: scan_pass_hits_induct)
  case (finished p idx)
  show ?case by simp
next
  case (step p idx ok n new)
  show ?case
  proof (cases ok)
    case False
    with step.IH show ?thesis by simp
  next
    case True
    with step.IH have n: "n = Suc idx + length new"
      and ix: "map hit_index new = [Suc (Suc idx) ..< Suc n]" by simp_all
    from n have "Suc idx < Suc n" by simp
    then have "[Suc idx ..< Suc n] = Suc idx # [Suc (Suc idx) ..< Suc n]"
      by (rule upt_conv_Cons)
    with True n ix show ?thesis by (simp add: new_hit_def)
  qed
qed

lemma pass_hits_disjoint:
  assumes "scan_pass sd text m p idx [] = Inr (n, new)"
  shows "sorted_wrt (\<lambda>a b. hit_position a + hit_length a \<le> hit_position b) new"
  using assms
proof (induction rule: scan_pass_hits_induct)
  case (finished p idx)
  show ?case by simp
next
  case (step p idx ok n new)
  from pass_hits_facts [OF step.hyps(3)]
  have "\<forall>h \<in> set new. pos (attempt sd text p) + 1 \<le> hit_position h" by simp
  with attempt_span [of sd "text" p]
  have "\<forall>h \<in> set new. p + length_run (attempt sd text p) \<le> hit_position h"
    by fastforce
  with step.IH show ?case by (simp add: new_hit_def)
qed

lemma pass_hits_ascending:
  assumes "scan_pass sd text m p idx [] = Inr (n, new)"
  shows "sorted_wrt (<) (map hit_position new)"
  using assms
proof (induction rule: scan_pass_hits_induct)
  case (finished p idx)
  show ?case by simp
next
  case (step p idx ok n new)
  from pass_hits_facts [OF step.hyps(3)] attempt_pos_ge [of p sd "text"]
  have "\<forall>h \<in> set new. p < hit_position h" by fastforce
  with step.IH show ?case by (simp add: new_hit_def)
qed

lemma py_replace_concat:
  "py_replace xs old new = concat (map (\<lambda>c. if c = old then new else [c]) xs)"
  by (induction xs) simp_all

lemma py_replace_single:
  "py_replace xs old [c'] = map (\<lambda>c. if c = old then c' else c) xs"
  by (induction xs) simp_all

lemma build_context_spec: "build_context text p l = context_spec text p l"
proof -
  have start: "nat (max 0 (int p - 50)) = (if p < 50 then 0 else p - 50)"
    by (auto simp: max_def nat_diff_distrib')
  have marker: "py_replace xs newline ''END OF READ''
        = concat (map (\<lambda>c. if c = newline then ''END OF READ'' else [c]) xs)" for xs
    by (rule py_replace_concat)
  show ?thesis
    unfolding build_context_def context_spec_def Let_def start marker
    by (simp add: py_replace_single py_slice_nth add.assoc)
qed

lemma marker_clean: "newline \<notin> set ''END OF READ''"
  by (simp add: newline_def)

lemma concat_marker_clean:
  "c \<notin> set mk \<Longrightarrow> c \<notin> set (concat (map (\<lambda>x. if x = c then mk else [x]) xs))"
  by (induction xs) auto

lemma map_tab_clean:
  assumes "newline \<notin> set ys"
  shows "newline \<notin> set (map (\<lambda>c. if c = tab then CHR '' '' else c) ys) \<and>
         tab \<notin> set (map (\<lambda>c. if c = tab then CHR '' '' else c) ys)"
proof -
  have "CHR '' '' \<noteq> newline" "CHR '' '' \<noteq> tab" by (simp_all add: newline_def tab_def)
  with assms show ?thesis by (auto split: if_splits)
qed

lemma context_spec_clean:
  "newline \<notin> set (context_spec text p l) \<and> tab \<notin> set (context_spec text p l)"
  unfolding context_spec_def
  by (rule map_tab_clean) (rule concat_marker_clean [OF marker_clean])

lemma telofinder_hit:
  assumes "telofinder text m = Inr (n, hits)" "h \<in> set hits"
  shows "\<exists>sd. hit_position h < length text \<and>
           valid_telomere text m (attempt sd text (hit_position h)) (hit_position h) = Inr True \<and>
           hit_length h = length_run (attempt sd text (hit_position h)) \<and>
           hit_context h = build_context text (hit_position h) (hit_length h)"
proof -
  from telofinder_split [OF assms(1)] obtain k hitsA hitsB
    where a: "scan_pass StrandA text m 0 0 [] = Inr (k, hitsA)"
      and b: "scan_pass StrandB text m 0 k [] = Inr (n, hitsB)"
      and h: "hits = hitsA @ hitsB" by blast
  from assms(2) h have "h \<in> set hitsA \<or> h \<in> set hitsB" by simp
  then show ?thesis
    using pass_hits_facts [OF a] pass_hits_facts [OF b] by blast
qed

lemma valid_telomere_True:
  assumes "valid_telomere text m s p = Inr True"
  shows "m < int (length_run s) \<and> length_run s < 1000 \<and> \<not> trash s \<and>
         (\<exists>c. py_index text (int p - 1) = Inr c \<and> c \<noteq> newline) \<and>
         (\<exists>c. py_index text (int p + int (length_run s) + 1) = Inr c \<and> c \<noteq> newline)"
  using assms
  by (auto simp: valid_telomere_def split: if_splits sum.splits)

lemma py_index_before_start:
  "text \<noteq> [] \<Longrightarrow> py_index text (int 0 - 1) = Inr (last text)"
  by (cases "text" rule: rev_cases)
     (simp_all add: py_index_def py_in_range_def py_at_def nth_append)

subsection \<open>Facts about the cursor\<close>













lemma attempt_all_primary:
  "length_run (attempt StrandA (replicate k (CHR ''G'')) p) \<le> 6"
  unfolding attempt_def
proof (rule inner_loop_rule [where I = "\<lambda>s. length_run s = gg s \<and> gg s \<le> 5"])
  show "length_run (init_state p) = gg (init_state p) \<and> gg (init_state p) \<le> 5"
    by (simp add: init_state_def)
next
  fix s s'
  assume "length_run s = gg s \<and> gg s \<le> 5" "pos s < length (replicate k (CHR ''G''))"
    "body StrandA (replicate k (CHR ''G'')) s = Next s'"
  then show "length_run s' = gg s' \<and> gg s' \<le> 5"
    by (auto simp: body_def classify_def stop_checks_def Let_def split: if_splits)
next
  fix s
  assume "length_run s = gg s \<and> gg s \<le> 5"
  then show "length_run s \<le> 6" by simp
next
  fix s s'
  assume "length_run s = gg s \<and> gg s \<le> 5" "pos s < length (replicate k (CHR ''G''))"
    "body StrandA (replicate k (CHR ''G'')) s = Break s'"
  then show "length_run s' \<le> 6"
    by (auto simp: body_def classify_def stop_checks_def Let_def split: if_splits)
qed

lemma all_primary_pass:
  assumes "6 \<le> m"
  shows "scan_pass StrandA (replicate k (CHR ''G'')) m p idx rs = Inr (idx, rs)"
proof (induction "k - p" arbitrary: p rule: less_induct)
  case less
  let ?t = "replicate k (CHR ''G'')"
  show ?case
  proof (cases "p < length ?t")
    case False
    then show ?thesis by (rule scan_pass_end)
  next
    case True
    from assms attempt_all_primary [of k p]
    have v: "valid_telomere ?t m (attempt StrandA ?t p) p = Inr False"
      by (simp add: valid_telomere_def)
    from True attempt_pos_ge [of p StrandA ?t]
    have "k - (pos (attempt StrandA ?t p) + 1) < k - p" by simp
    from less.hyps [OF this] True v show ?thesis
      by (subst scan_pass.simps) simp
  qed
qed

subsection \<open>The stop conditions of an attempt\<close>

text \<open>
  Claim C5. In an attempt started at \<open>p\<close>, let \<open>s\<close> be the state at the head of the
  inner loop after some number of iterations, with the cursor inside the text, and let the
  character under the cursor be consumed, giving the counters of \<open>s1\<close> (lines 90-108).
  If the secondary counter \<open>tt\<close> then exceeds 3, or the primary counter \<open>gg\<close> exceeds 5,
  the attempt ends in \<open>s1\<close> with \<open>trash\<close> still false; if the adjacency counter \<open>gt\<close>
  exceeds 10, the attempt ends in \<open>s1\<close> with \<open>trash\<close> set. The cursor is not advanced
  in any of the three cases.
\<close>

theorem stop_conditions:
  assumes "head_state sd text p n = Some s"
    and "pos s < length text"
    and "classify sd text s = Next s1"
  shows "(tt s1 > 3 \<longrightarrow> attempt sd text p = s1 \<and> \<not> trash s1) \<and>
         (gg s1 > 5 \<longrightarrow> attempt sd text p = s1 \<and> \<not> trash s1) \<and>
         (gt s1 > 10 \<longrightarrow> attempt sd text p = s1\<lparr>trash := True\<rparr>)"
proof -
  from assms(1) have inv: "loop_inv sd text p s" by (rule head_state_inv)
  have b: "body sd text s = stop_checks s1"
    using assms(3) by (simp add: body_def)
  have stop: "\<And>f. stop_checks s1 = Break f \<Longrightarrow> attempt sd text p = f"
    using head_state_stop [OF assms(1,2)] b by simp
  from inv assms(3) have nt: "\<not> trash s1"
    by (auto simp: loop_inv_def classify_def Let_def split: if_splits)
  have c1: "tt s1 > 3 \<Longrightarrow> stop_checks s1 = Break s1"
    by (simp add: stop_checks_def)
  have c2: "gg s1 > 5 \<Longrightarrow> stop_checks s1 = Break s1"
    by (simp add: stop_checks_def)
  have c3: "stop_checks s1 = Break (s1\<lparr>trash := True\<rparr>)" if g: "gt s1 > 10"
  proof -
    from inv assms(3) g have prim: "text ! pos s = primary sd"
      and prev: "py_at text (int (pos s) - 1) = secondary sd"
      and s1: "tt s1 = 0" "gg s1 = gg s + 1" "0 < gt s"
      by (auto simp: loop_inv_def classify_def Let_def split: if_splits)
    from inv s1(3) have lt: "p < pos s" by (simp add: loop_inv_def)
    then have "py_at text (int (pos s) - 1) = text ! (pos s - 1)"
      by (simp add: py_at_def nat_diff_distrib')
    with prev inv lt have "gg s = 0" by (simp add: loop_inv_def)
    with s1 g show ?thesis by (simp add: stop_checks_def)
  qed
  from c1 c2 c3 stop nt show ?thesis by blast
qed

theorem stop_conditions_witness:
  "attempt StrandA ''TTTT'' 0
     = \<lparr>length_run = 4, trash = False, ac = 0, gt = 0, tt = 4, gg = 0, pos = 3\<rparr> \<and>
   attempt StrandA ''GGGGGG'' 0
     = \<lparr>length_run = 6, trash = False, ac = 0, gt = 0, tt = 0, gg = 6, pos = 5\<rparr> \<and>
   attempt StrandA ''TGTGTGTGTGTGTGTGTGTGTG'' 0
     = \<lparr>length_run = 22, trash = True, ac = 0, gt = 11, tt = 0, gg = 1, pos = 21\<rparr>"
proof -
  have t1: "head_state StrandA ''TTTT'' 0 3
      = Some \<lparr>length_run = 3, trash = False, ac = 0, gt = 0, tt = 3, gg = 0, pos = 3\<rparr>"
    by code_simp
  have t2: "pos \<lparr>length_run = 3, trash = False, ac = 0, gt = 0, tt = 3, gg = 0, pos = 3\<rparr>
      < length ''TTTT''"
    by simp
  have t3: "classify StrandA ''TTTT''
        \<lparr>length_run = 3, trash = False, ac = 0, gt = 0, tt = 3, gg = 0, pos = 3\<rparr>
      = Next \<lparr>length_run = 4, trash = False, ac = 0, gt = 0, tt = 4, gg = 0, pos = 3\<rparr>"
    by code_simp
  have g1: "head_state StrandA ''GGGGGG'' 0 5
      = Some \<lparr>length_run = 5, trash = False, ac = 0, gt = 0, tt = 0, gg = 5, pos = 5\<rparr>"
    by code_simp
  have g2: "pos \<lparr>length_run = 5, trash = False, ac = 0, gt = 0, tt = 0, gg = 5, pos = 5\<rparr>
      < length ''GGGGGG''"
    by simp
  have g3: "classify StrandA ''GGGGGG''
        \<lparr>length_run = 5, trash = False, ac = 0, gt = 0, tt = 0, gg = 5, pos = 5\<rparr>
      = Next \<lparr>length_run = 6, trash = False, ac = 0, gt = 0, tt = 0, gg = 6, pos = 5\<rparr>"
    by code_simp
  have a1: "head_state StrandA ''TGTGTGTGTGTGTGTGTGTGTG'' 0 21
      = Some \<lparr>length_run = 21, trash = False, ac = 0, gt = 10, tt = 1, gg = 0, pos = 21\<rparr>"
    by code_simp
  have a2: "pos \<lparr>length_run = 21, trash = False, ac = 0, gt = 10, tt = 1, gg = 0, pos = 21\<rparr>
      < length ''TGTGTGTGTGTGTGTGTGTGTG''"
    by simp
  have a3: "classify StrandA ''TGTGTGTGTGTGTGTGTGTGTG''
        \<lparr>length_run = 21, trash = False, ac = 0, gt = 10, tt = 1, gg = 0, pos = 21\<rparr>
      = Next \<lparr>length_run = 22, trash = False, ac = 0, gt = 11, tt = 0, gg = 1, pos = 21\<rparr>"
    by code_simp
  from stop_conditions [OF t1 t2 t3] stop_conditions [OF g1 g2 g3]
    stop_conditions [OF a1 a2 a3]
  show ?thesis by simp
qed

subsection \<open>The noise branch of an attempt\<close>

text \<open>
  Claim C6. In an attempt started at \<open>p\<close>, let \<open>s\<close> be the state at the head of the
  inner loop, with the cursor on a character of the noise set. The counter \<open>ac\<close> is 0 there:
  nothing of an earlier count is left. The number of noise characters in the window
  \<open>[pos, pos + 15)\<close>, clipped at the end of the text, decides: above 2 the attempt ends
  in \<open>s\<close> itself (length, cursor and \<open>trash\<close> unchanged, only \<open>ac\<close> holds the count);
  otherwise the next iteration starts with the length and the cursor advanced by 1 and
  \<open>ac\<close> back at 0.
\<close>

theorem noise_window:
  assumes "head_state sd text p n = Some s"
    and "pos s < length text"
    and "text ! pos s = noise1 sd \<or> text ! pos s = noise2 sd"
  shows "ac s = 0 \<and> \<not> trash s \<and>
         (if window_noise sd text (pos s) > 2
          then attempt sd text p = s\<lparr>ac := window_noise sd text (pos s)\<rparr>
          else head_state sd text p (Suc n)
               = Some (s\<lparr>ac := 0, length_run := length_run s + 1, pos := pos s + 1\<rparr>))"
proof -
  from assms(1) have inv: "loop_inv sd text p s" by (rule head_state_inv)
  from assms(3) strand_distinct [of sd]
  have ch: "text ! pos s \<noteq> primary sd" "text ! pos s \<noteq> secondary sd" by auto
  show ?thesis
  proof (cases "window_noise sd text (pos s) > 2")
    case True
    with ch assms(3) have "body sd text s = Break (s\<lparr>ac := window_noise sd text (pos s)\<rparr>)"
      by (simp add: body_def classify_def py_count_window Let_def)
    from head_state_stop [OF assms(1,2) this] inv True show ?thesis
      by (simp add: loop_inv_def)
  next
    case False
    with ch assms(3) have "classify sd text s = Next (s\<lparr>ac := 0, length_run := length_run s + 1\<rparr>)"
      by (simp add: classify_def py_count_window Let_def)
    with inv have "body sd text s
        = Next (s\<lparr>ac := 0, length_run := length_run s + 1, pos := pos s + 1\<rparr>)"
      by (simp add: body_def stop_checks_def loop_inv_def)
    with assms(1,2) inv False show ?thesis
      by (simp add: loop_inv_def)
  qed
qed

theorem noise_window_witness:
  "window_noise StrandA ''GAAAG'' 1 = 3 \<and>
   attempt StrandA ''GAAAG'' 0
     = \<lparr>length_run = 1, trash = False, ac = 3, gt = 0, tt = 0, gg = 1, pos = 1\<rparr> \<and>
   window_noise StrandA ''GAAG'' 1 = 2 \<and>
   head_state StrandA ''GAAG'' 0 (Suc 1)
     = Some \<lparr>length_run = 2, trash = False, ac = 0, gt = 0, tt = 0, gg = 1, pos = 2\<rparr>"
proof -
  have x1: "head_state StrandA ''GAAAG'' 0 1
      = Some \<lparr>length_run = 1, trash = False, ac = 0, gt = 0, tt = 0, gg = 1, pos = 1\<rparr>"
    by code_simp
  have x2: "pos \<lparr>length_run = 1, trash = False, ac = 0, gt = 0, tt = 0, gg = 1, pos = 1\<rparr>
      < length ''GAAAG''"
    by simp
  have x3: "''GAAAG'' ! pos \<lparr>length_run = 1, trash = False, ac = 0, gt = 0, tt = 0, gg = 1, pos = 1\<rparr>
        = noise1 StrandA \<or>
      ''GAAAG'' ! pos \<lparr>length_run = 1, trash = False, ac = 0, gt = 0, tt = 0, gg = 1, pos = 1\<rparr>
        = noise2 StrandA"
    by simp
  have x4: "window_noise StrandA ''GAAAG'' 1 = 3"
    by code_simp
  have y1: "head_state StrandA ''GAAG'' 0 1
      = Some \<lparr>length_run = 1, trash = False, ac = 0, gt = 0, tt = 0, gg = 1, pos = 1\<rparr>"
    by code_simp
  have y2: "pos \<lparr>length_run = 1, trash = False, ac = 0, gt = 0, tt = 0, gg = 1, pos = 1\<rparr>
      < length ''GAAG''"
    by simp
  have y3: "''GAAG'' ! pos \<lparr>length_run = 1, trash = False, ac = 0, gt = 0, tt = 0, gg = 1, pos = 1\<rparr>
        = noise1 StrandA \<or>
      ''GAAG'' ! pos \<lparr>length_run = 1, trash = False, ac = 0, gt = 0, tt = 0, gg = 1, pos = 1\<rparr>
        = noise2 StrandA"
    by simp
  have y4: "window_noise StrandA ''GAAG'' 1 = 2"
    by code_simp
  from noise_window [OF x1 x2 x3] noise_window [OF y1 y2 y3] x4 y4
  show ?thesis by (simp del: head_state.simps)
qed

subsection \<open>The cursor of the outer loop\<close>




subsection \<open>A text of G only\<close>

text \<open>
  Claim C2 says that 200 times G, with \<open>min_length = 50\<close>, gives exactly one strand-A hit
  of length 200 at position 0. The pass gives no hit: the check \<open>gg > 5\<close> of line 115
  ends every attempt at its sixth G.
\<close>

theorem all_primary_counterexample:
  "scan_pass StrandA (replicate 200 (CHR ''G'')) 50 0 0 [] = Inr (0, []) \<and>
   scan_pass StrandA (replicate 200 (CHR ''G'')) 50 0 0 []
     \<noteq> Inr (1, [\<lparr>hit_index = 1, hit_length = 200, hit_position = 0,
                  hit_context = replicate 200 (CHR ''G'')\<rparr>])"
proof -
  have "scan_pass StrandA (replicate 200 (CHR ''G'')) 50 0 0 [] = Inr (0, [])"
    by code_simp
  then show ?thesis by simp
qed

text \<open>
  Claim C2, amended. A text of G only, of any length (200 in particular), gives no hit on
  the strand-A pass for any \<open>min_length\<close> of at least 6 (50 in particular): the pass ends
  with the index and the results it started with.
\<close>

theorem all_primary_no_hit:
  assumes "6 \<le> m"
  shows "scan_pass StrandA (replicate k (CHR ''G'')) m 0 idx [] = Inr (idx, [])"
proof -
  have "length_run (attempt StrandA (replicate k (CHR ''G'')) p) \<le> 6" for p
    by (rule attempt_all_primary)
  with assms show ?thesis
    by (intro all_primary_pass)
qed

theorem all_primary_no_hit_witness:
  "(6::int) \<le> 50 \<and> scan_pass StrandA (replicate 200 (CHR ''G'')) 50 0 0 [] = Inr (0, [])"
  using all_primary_no_hit [of 50 200 0] by simp

subsection \<open>The boundary probes of the acceptance check\<close>

text \<open>
  Claim C3 asks for total boundary probes: out of range, a probe counts as "not a line
  separator". In the code the probe after the run, \<open>text[position + length + 1]\<close>, raises
  IndexError when it is past the end: a run of 52 characters that reaches the end of the
  text ends the program, and so does the text \<open>GT\<close> with \<open>min_length = 0\<close>. The probe
  before the run, \<open>text[position - 1]\<close>, at position 0 reads the last character of the
  text: six G, two T and a final line separator give no hit, although the run of six G at
  position 0 is neither preceded nor followed by a line separator.
\<close>

theorem boundary_probes_unguarded:
  "telofinder (concat (replicate 17 ''TGG'') @ ''T'') 50 = Inl IndexError \<and>
   telofinder ''GT'' 0 = Inl IndexError \<and>
   py_index (''GGGGGGTT'' @ [newline]) (int 0 - 1) = Inr newline \<and>
   length_run (attempt StrandA (''GGGGGGTT'' @ [newline]) 0) = 6 \<and>
   telofinder (''GGGGGGTT'' @ [newline]) 0 = Inr (0, [])"
proof -
  have a: "telofinder (concat (replicate 17 ''TGG'') @ ''T'') 50 = Inl IndexError"
    by code_simp
  have b: "telofinder ''GT'' 0 = Inl IndexError"
    by code_simp
  have c: "py_index (''GGGGGGTT'' @ [newline]) (int 0 - 1) = Inr newline"
    by code_simp
  have d: "length_run (attempt StrandA (''GGGGGGTT'' @ [newline]) 0) = 6"
    by code_simp
  have e: "telofinder (''GGGGGGTT'' @ [newline]) 0 = Inr (0, [])"
    by code_simp
  from a b c d e show ?thesis by blast
qed

text \<open>
  Claim C10. When the text is not empty and ends with a line separator, no row of the
  result has position 0, in either pass: at position 0 the probe \<open>text[position - 1]\<close>
  reads the last character of the text.
\<close>

theorem no_hit_at_start:
  assumes "telofinder text m = Inr (n, hits)" and "text \<noteq> []" and "last text = newline"
    and "h \<in> set hits"
  shows "hit_position h \<noteq> 0"
proof
  assume z: "hit_position h = 0"
  from telofinder_hit [OF assms(1,4)] z obtain sd
    where "valid_telomere text m (attempt sd text 0) 0 = Inr True" by auto
  from valid_telomere_True [OF this] obtain c
    where "py_index text (int 0 - 1) = Inr c" "c \<noteq> newline" by blast
  with py_index_before_start [OF assms(2)] assms(3) show False by simp
qed

theorem no_hit_at_start_witness:
  "telofinder sample_read 0 = Inr (2, sample_hits) \<and> sample_read \<noteq> [] \<and>
   last sample_read = newline \<and> sample_hits ! 0 \<in> set sample_hits \<and>
   hit_position (sample_hits ! 0) \<noteq> 0"
proof -
  have e: "telofinder sample_read 0 = Inr (2, sample_hits)" by code_simp
  have n: "sample_read \<noteq> []" by (simp add: sample_read_def)
  have l: "last sample_read = newline" by (simp add: sample_read_def)
  have h: "sample_hits ! 0 \<in> set sample_hits" by (simp add: sample_hits_def)
  from no_hit_at_start [OF e n l h] e n l h show ?thesis by blast
qed

subsection \<open>The rows of the result\<close>

text \<open>
  Claim C4. Every row of the result has a length above \<open>min_length\<close> and below 1000, and
  it is the length of the attempt, of one of the two strands, started at the row's
  position; that attempt ended with \<open>trash\<close> false, and it did not stop on a character
  that is none of the four bases.
\<close>

theorem hit_bounds:
  assumes "telofinder text m = Inr (n, hits)" and "h \<in> set hits"
  shows "m < int (hit_length h) \<and> hit_length h < 1000 \<and>
         (\<exists>sd. length_run (attempt sd text (hit_position h)) = hit_length h \<and>
               \<not> trash (attempt sd text (hit_position h)) \<and>
               (pos (attempt sd text (hit_position h)) < length text \<longrightarrow>
                  recognised sd (text ! pos (attempt sd text (hit_position h)))))"
proof -
  from telofinder_hit [OF assms] obtain sd
    where v: "valid_telomere text m (attempt sd text (hit_position h)) (hit_position h) = Inr True"
      and l: "hit_length h = length_run (attempt sd text (hit_position h))" by blast
  let ?a = "attempt sd text (hit_position h)"
  from valid_telomere_True [OF v]
  have b: "m < int (length_run ?a)" "length_run ?a < 1000" "\<not> trash ?a" by simp_all
  from b(3) attempt_unrecognized [of sd "text" "hit_position h"]
  have "pos ?a < length text \<longrightarrow> recognised sd (text ! pos ?a)"
    by (auto simp: recognised_def)
  with b l show ?thesis by auto
qed

theorem hit_bounds_witness:
  "telofinder sample_read 0 = Inr (2, sample_hits) \<and> sample_hits ! 0 \<in> set sample_hits \<and>
   0 < int (hit_length (sample_hits ! 0)) \<and> hit_length (sample_hits ! 0) < 1000 \<and>
   (\<exists>sd. length_run (attempt sd sample_read (hit_position (sample_hits ! 0)))
            = hit_length (sample_hits ! 0) \<and>
         \<not> trash (attempt sd sample_read (hit_position (sample_hits ! 0))) \<and>
         (pos (attempt sd sample_read (hit_position (sample_hits ! 0))) < length sample_read \<longrightarrow>
            recognised sd
              (sample_read ! pos (attempt sd sample_read (hit_position (sample_hits ! 0))))))"
proof -
  have e: "telofinder sample_read 0 = Inr (2, sample_hits)" by code_simp
  have h: "sample_hits ! 0 \<in> set sample_hits" by (simp add: sample_hits_def)
  from hit_bounds [OF e h] e h show ?thesis by blast
qed

text \<open>
  Claim C7. The context of every row of the result is the specification's context of the
  row's position and length: the slice from \<open>max(0, position - 50)\<close> to
  \<open>min(text_length, position + length + 50)\<close> with each line separator replaced by
  \<open>END OF READ\<close> and each tab by a space. It holds no line separator and no tab.
\<close>

theorem hit_context_clean:
  assumes "telofinder text m = Inr (n, hits)" and "h \<in> set hits"
  shows "hit_context h = context_spec text (hit_position h) (hit_length h) \<and>
         newline \<notin> set (hit_context h) \<and> tab \<notin> set (hit_context h)"
proof -
  from telofinder_hit [OF assms]
  have "hit_context h = build_context text (hit_position h) (hit_length h)" by blast
  then have "hit_context h = context_spec text (hit_position h) (hit_length h)"
    by (simp add: build_context_spec)
  with context_spec_clean [of "text" "hit_position h" "hit_length h"]
  show ?thesis by simp
qed

theorem hit_context_clean_witness:
  "telofinder sample_read 0 = Inr (2, sample_hits) \<and> sample_hits ! 0 \<in> set sample_hits \<and>
   hit_context (sample_hits ! 0) = '' TTTTGGGGGGTTTEND OF READ'' \<and>
   hit_context (sample_hits ! 0)
     = context_spec sample_read (hit_position (sample_hits ! 0)) (hit_length (sample_hits ! 0)) \<and>
   newline \<notin> set (hit_context (sample_hits ! 0)) \<and>
   tab \<notin> set (hit_context (sample_hits ! 0))"
proof -
  have e: "telofinder sample_read 0 = Inr (2, sample_hits)" by code_simp
  have h: "sample_hits ! 0 \<in> set sample_hits" by (simp add: sample_hits_def)
  have c: "hit_context (sample_hits ! 0) = '' TTTTGGGGGGTTTEND OF READ''"
    by (simp add: sample_hits_def)
  from hit_context_clean [OF e h] e h c show ?thesis by blast
qed

text \<open>
  Claim C8. The result is the rows of the strand-A pass followed by the rows of the
  strand-B pass, each pass in strictly ascending position, and the index fields are
  1, 2, 3, ... over the whole list; the strand-B pass starts with the index the strand-A
  pass ended with.
\<close>

theorem result_order:
  assumes "telofinder text m = Inr (n, hits)"
  shows "\<exists>k hitsA hitsB.
           scan_pass StrandA text m 0 0 [] = Inr (k, hitsA) \<and>
           scan_pass StrandB text m 0 k [] = Inr (n, hitsB) \<and>
           hits = hitsA @ hitsB \<and>
           sorted_wrt (<) (map hit_position hitsA) \<and>
           sorted_wrt (<) (map hit_position hitsB) \<and>
           map hit_index hits = [1 ..< Suc (length hits)]"
proof -
  from telofinder_split [OF assms] obtain k hitsA hitsB
    where a: "scan_pass StrandA text m 0 0 [] = Inr (k, hitsA)"
      and b: "scan_pass StrandB text m 0 k [] = Inr (n, hitsB)"
      and h: "hits = hitsA @ hitsB" by blast
  from pass_hits_index [OF a] have ka: "k = length hitsA"
    and ia: "map hit_index hitsA = [Suc 0 ..< Suc k]" by simp_all
  from pass_hits_index [OF b] have nb: "n = k + length hitsB"
    and ib: "map hit_index hitsB = [Suc k ..< Suc n]" by simp_all
  have "[Suc 0 ..< Suc k] @ [Suc k ..< Suc n] = [Suc 0 ..< Suc n]"
    using nb upt_add_eq_append [of "Suc 0" "Suc k" "length hitsB"] by simp
  with ia ib h ka nb have "map hit_index hits = [1 ..< Suc (length hits)]"
    by (simp del: upt_Suc)
  with a b h pass_hits_ascending [OF a] pass_hits_ascending [OF b]
  show ?thesis by blast
qed

theorem result_order_witness:
  "telofinder two_strand_read 0 = Inr (2, two_strand_hits) \<and>
   (\<exists>k hitsA hitsB.
      scan_pass StrandA two_strand_read 0 0 0 [] = Inr (k, hitsA) \<and>
      scan_pass StrandB two_strand_read 0 0 k [] = Inr (2, hitsB) \<and>
      two_strand_hits = hitsA @ hitsB \<and>
      sorted_wrt (<) (map hit_position hitsA) \<and>
      sorted_wrt (<) (map hit_position hitsB) \<and>
      map hit_index two_strand_hits = [1 ..< Suc (length two_strand_hits)])"
proof -
  have e: "telofinder two_strand_read 0 = Inr (2, two_strand_hits)" by code_simp
  from result_order [OF e] e show ?thesis by blast
qed

text \<open>
  Claim C9 says that within a pass each later row's position is strictly greater than
  the preceding row's position plus its length. When an attempt is ended by one of the
  checks of lines 113-119, its last character is counted in the length but the cursor
  still stands on it, and the next attempt starts right after it: on twelve G, two T and
  an N, with \<open>min_length = 0\<close>, the strand-A pass gives a row of length 6 at position 0
  and a row at position 6.
\<close>

theorem hits_disjoint_counterexample:
  "scan_pass StrandA abutting_read 0 0 0 [] = Inr (2, abutting_hits) \<and>
   \<not> (hit_position (abutting_hits ! 0) + hit_length (abutting_hits ! 0)
        < hit_position (abutting_hits ! 1))"
proof -
  have "scan_pass StrandA abutting_read 0 0 0 [] = Inr (2, abutting_hits)" by code_simp
  then show ?thesis by (simp add: abutting_hits_def)
qed

text \<open>
  Claim C9, amended. Within each pass the rows are pairwise disjoint: each later row's
  position is at least the position plus the length of every earlier row of the pass.
\<close>

theorem hits_disjoint:
  assumes "telofinder text m = Inr (n, hits)"
  shows "\<exists>k hitsA hitsB.
           scan_pass StrandA text m 0 0 [] = Inr (k, hitsA) \<and>
           scan_pass StrandB text m 0 k [] = Inr (n, hitsB) \<and>
           hits = hitsA @ hitsB \<and>
           sorted_wrt (\<lambda>a b. hit_position a + hit_length a \<le> hit_position b) hitsA \<and>
           sorted_wrt (\<lambda>a b. hit_position a + hit_length a \<le> hit_position b) hitsB"
proof -
  from telofinder_split [OF assms] obtain k hitsA hitsB
    where a: "scan_pass StrandA text m 0 0 [] = Inr (k, hitsA)"
      and b: "scan_pass StrandB text m 0 k [] = Inr (n, hitsB)"
      and h: "hits = hitsA @ hitsB" by blast
  with pass_hits_disjoint [OF a] pass_hits_disjoint [OF b]
  show ?thesis by blast
qed

theorem hits_disjoint_witness:
  "telofinder abutting_read 0 = Inr (2, abutting_hits) \<and>
   (\<exists>k hitsA hitsB.
      scan_pass StrandA abutting_read 0 0 0 [] = Inr (k, hitsA) \<and>
      scan_pass StrandB abutting_read 0 0 k [] = Inr (2, hitsB) \<and>
      abutting_hits = hitsA @ hitsB \<and>
      sorted_wrt (\<lambda>a b. hit_position a + hit_length a \<le> hit_position b) hitsA \<and>
      sorted_wrt (\<lambda>a b. hit_position a + hit_length a \<le> hit_position b) hitsB)"
proof -
  have e: "telofinder abutting_read 0 = Inr (2, abutting_hits)" by code_simp
  from hits_disjoint [OF e] e show ?thesis by blast
qed

end
